theory Spec2Isabelle
  imports Complex_Main
begin

section \<open>The kegboard daemon (pykeg/bin/kegboard\_daemon.py)\<close>

text \<open>
  The daemon relays sensor readings of a kegboard to the Kegbot core. The development
  embeds the duplicate-suppressing cache, the manager thread's message handling and its
  main loop, and states the properties of the message pipeline over them.
\<close>

subsection \<open>Time, exceptions\<close>

text \<open>
  A \<open>datetime\<close> is the number of microseconds it denotes and a \<open>timedelta\<close> is a
  number of microseconds: subtraction and comparison of both are exact in Python.
  \<open>datetime.datetime.now()\<close> is the wall clock read by the caller, so the reading is an
  argument of every function that reads it.
\<close>

type_synonym datetime = int
type_synonym timedelta = int

datatype exn =
    OverflowError
  | ClientException string
  | OtherException string

text \<open>
  \<open>datetime.timedelta(seconds=s)\<close> for an integer \<open>s\<close>: the value is normalised to
  days, seconds and microseconds, and a number of days beyond 999999999 in magnitude
  raises \<open>OverflowError\<close>.
\<close>

definition timedelta_seconds :: "int \<Rightarrow> exn + timedelta" where
  "timedelta_seconds s =
     (if \<bar>s div 86400\<bar> > 999999999 then Inl OverflowError else Inr (s * 1000000))"

subsection \<open>DuplicateSuppressingCache\<close>

text \<open>
  The flag \<open>cache_seconds\<close> is defined with the default 60, and the default argument
  \<open>max_age=FLAGS.cache_seconds\<close> is evaluated when the class body is executed.
\<close>

definition FLAGS_cache_seconds :: int where
  "FLAGS_cache_seconds = 60"

record ('k, 'v) DuplicateSuppressingCache =
  max_delta :: timedelta
  last_reading_time :: "'k \<rightharpoonup> datetime"
  last_reading_value :: "'k \<rightharpoonup> 'v"

text \<open>The cache as the constructor leaves it: the window and two empty dictionaries.\<close>

definition new_cache :: "timedelta \<Rightarrow> ('k, 'v) DuplicateSuppressingCache" where
  "new_cache d = \<lparr>max_delta = d, last_reading_time = Map.empty,
                   last_reading_value = Map.empty\<rparr>"

text \<open>\<open>__init__(self, max_age=FLAGS.cache_seconds)\<close>; \<open>None\<close> is the omitted argument.\<close>

definition DuplicateSuppressingCache_init ::
  "int option \<Rightarrow> exn + ('k, 'v) DuplicateSuppressingCache" where
  "DuplicateSuppressingCache_init max_age_arg =
     (let max_age = (case max_age_arg of None \<Rightarrow> FLAGS_cache_seconds | Some a \<Rightarrow> a)
      in case timedelta_seconds max_age of
           Inl e \<Rightarrow> Inl e
         | Inr d \<Rightarrow> Inr (new_cache d))"

text \<open>The two assignments \<open>self._last_reading_time[key] = now\<close> and
  \<open>self._last_reading_value[key] = value\<close> that three branches share.\<close>

definition store_reading ::
  "'k \<Rightarrow> 'v \<Rightarrow> datetime \<Rightarrow> ('k, 'v) DuplicateSuppressingCache
     \<Rightarrow> ('k, 'v) DuplicateSuppressingCache" where
  "store_reading key val now c =
     c\<lparr>last_reading_time := (last_reading_time c)(key \<mapsto> now),
       last_reading_value := (last_reading_value c)(key \<mapsto> val)\<rparr>"

text \<open>
  \<open>ShouldSuppress(self, key, value)\<close>, with the clock reading \<open>now\<close> as an argument;
  the result is the returned boolean and the cache after the call. \<open>dict.get\<close> gives
  \<open>None\<close> for a missing key, and \<open>value != last_value\<close> compares the value with
  what \<open>get\<close> gave.
\<close>

definition ShouldSuppress ::
  "'k \<Rightarrow> 'v \<Rightarrow> datetime \<Rightarrow> ('k, 'v) DuplicateSuppressingCache
     \<Rightarrow> bool \<times> ('k, 'v) DuplicateSuppressingCache" where
  "ShouldSuppress key val now c =
     (let last_time = last_reading_time c key;
          last_value = last_reading_value c key
      in case last_time of
           None \<Rightarrow> (False, store_reading key val now c)
         | Some lt \<Rightarrow>
             if Some val \<noteq> last_value then (False, store_reading key val now c)
             else if now - lt < max_delta c then (True, c)
             else (False, store_reading key val now c))"

text \<open>
  A sequence of calls, each with its key, its value and the clock reading of the call:
  the returned booleans in order, and the cache after the last call.
\<close>

type_synonym ('k, 'v) call = "'k \<times> 'v \<times> datetime"

definition clock :: "('k, 'v) call \<Rightarrow> datetime" where
  "clock x = snd (snd x)"

fun ShouldSuppress_calls ::
  "('k, 'v) call list \<Rightarrow> ('k, 'v) DuplicateSuppressingCache
     \<Rightarrow> bool list \<times> ('k, 'v) DuplicateSuppressingCache" where
  "ShouldSuppress_calls [] c = ([], c)"
| "ShouldSuppress_calls (x # xs) c =
     (let r = ShouldSuppress (fst x) (fst (snd x)) (clock x) c;
          rs = ShouldSuppress_calls xs (snd r)
      in (fst r # fst rs, snd rs))"

subsection \<open>Messages and the network client\<close>

text \<open>
  Modelled from the spec: the message classes of \<open>pykeg.hw.kegboard\<close>, which the
  daemon imports. A meter status message carries a meter name and an integer reading, a
  temperature reading message a sensor name and a number; every other message the reader
  can produce is \<open>OtherMessage\<close>, tagged with the name of its class.
\<close>

datatype msg =
    MeterStatusMessage string int
  | TemperatureReadingMessage string rat
  | OtherMessage string

text \<open>
  The two methods of \<open>kegnet_client.KegnetClient\<close> that the manager calls. The client
  is an object of its own: a call takes the client's state and gives the exception it
  raises, if any, and the client's next state.
\<close>

datatype send_call =
    SendMeterUpdate string int
  | SendThermoUpdate string rat

type_synonym 'c client = "send_call \<Rightarrow> 'c \<Rightarrow> exn option \<times> 'c"

subsection \<open>KegboardManagerThread\<close>

datatype log_record = Info string | Warning string

datatype thread_state = Created | Looping | Exited | Died exn

text \<open>
  The fields of the thread object, the state of the client it holds, and three traces:
  the calls made to the client, the records given to the logger, and the queue items
  passed to \<open>_HandleDeviceMessage\<close>. A number stored in the cache is the rational it
  denotes: Python compares an \<open>int\<close> and a \<open>float\<close> by their exact values.
\<close>

record 'c KegboardManagerThread =
  client_state :: 'c
  message_queue :: "(string \<times> msg) list"
  cache :: "(string \<times> string, rat) DuplicateSuppressingCache"
  quit :: bool
  thread :: thread_state
  sent :: "send_call list"
  logger :: "log_record list"
  handled :: "(string \<times> msg) list"

text \<open>The thread object as \<open>__init__\<close> leaves it, around a given cache.\<close>

definition new_manager ::
  "'c \<Rightarrow> (string \<times> string, rat) DuplicateSuppressingCache \<Rightarrow> 'c KegboardManagerThread" where
  "new_manager cl c =
     \<lparr>client_state = cl, message_queue = [], cache = c, quit = False,
      thread = Created, sent = [], logger = [], handled = []\<rparr>"

text \<open>\<open>__init__\<close>: an empty queue and \<open>DuplicateSuppressingCache()\<close>, with no argument.\<close>

definition KegboardManagerThread_init :: "'c \<Rightarrow> exn + 'c KegboardManagerThread" where
  "KegboardManagerThread_init cl =
     (case DuplicateSuppressingCache_init None of
        Inl e \<Rightarrow> Inl e
      | Inr c \<Rightarrow> Inr (new_manager cl c))"

text \<open>\<open>PostDeviceMessage\<close>: \<open>Queue.put\<close> appends the pair at the tail of the queue.\<close>

definition PostDeviceMessage ::
  "string \<Rightarrow> msg \<Rightarrow> 'c KegboardManagerThread \<Rightarrow> 'c KegboardManagerThread" where
  "PostDeviceMessage device_name device_message s =
     s\<lparr>message_queue := message_queue s @ [(device_name, device_message)]\<rparr>"

text \<open>A call of a client method: the call is recorded whether or not it raises.\<close>

definition client_send ::
  "'c client \<Rightarrow> send_call \<Rightarrow> 'c KegboardManagerThread
     \<Rightarrow> exn option \<times> 'c KegboardManagerThread" where
  "client_send cl call s =
     (let r = cl call (client_state s)
      in (fst r, s\<lparr>client_state := snd r, sent := sent s @ [call]\<rparr>))"

text \<open>
  \<open>_HandleDeviceMessage(self, device_name, msg)\<close>: the exception that leaves the
  method, if any, and the thread object after it.
\<close>

definition HandleDeviceMessage ::
  "'c client \<Rightarrow> string \<Rightarrow> msg \<Rightarrow> datetime \<Rightarrow> 'c KegboardManagerThread
     \<Rightarrow> exn option \<times> 'c KegboardManagerThread" where
  "HandleDeviceMessage cl device_name m now s =
     (case m of
        MeterStatusMessage meter_name curr_val \<Rightarrow>
          (let r = ShouldSuppress (''meter'', meter_name) (of_int curr_val) now (cache s);
               suppress = fst r;
               s' = s\<lparr>cache := snd r\<rparr>
           in if \<not> suppress then client_send cl (SendMeterUpdate meter_name curr_val) s'
              else (None, s'))
      | TemperatureReadingMessage sensor_name sensor_value \<Rightarrow>
          (let r = ShouldSuppress (''thermo'', sensor_name) sensor_value now (cache s);
               suppress = fst r;
               s' = s\<lparr>cache := snd r\<rparr>
           in if \<not> suppress then client_send cl (SendThermoUpdate sensor_name sensor_value) s'
              else (None, s'))
      | OtherMessage _ \<Rightarrow> (None, s))"

text \<open>
  One pass of the loop of \<open>run\<close>, guard included. \<open>Queue.get\<close> takes the head of the
  queue; on an empty queue it raises \<open>Queue.Empty\<close> after the timeout and the loop
  continues. Only \<open>ClientException\<close> is caught around the handling: it is logged as a
  warning. Any other exception leaves \<open>run\<close> and ends the thread.
\<close>

definition run_iteration ::
  "'c client \<Rightarrow> datetime \<Rightarrow> 'c KegboardManagerThread \<Rightarrow> 'c KegboardManagerThread" where
  "run_iteration cl now s =
     (if quit s
      then s\<lparr>thread := Exited, logger := logger s @ [Info ''Exiting main loop.'']\<rparr>
      else case message_queue s of
             [] \<Rightarrow> s
           | item # rest \<Rightarrow>
               (let r = HandleDeviceMessage cl (fst item) (snd item) now
                          (s\<lparr>message_queue := rest, handled := handled s @ [item]\<rparr>)
                in case fst r of
                     None \<Rightarrow> snd r
                   | Some (ClientException e) \<Rightarrow>
                       (snd r)\<lparr>logger := logger (snd r)
                                   @ [Warning (''Got error during send: '' @ e)]\<rparr>
                   | Some ex \<Rightarrow> (snd r)\<lparr>thread := Died ex\<rparr>))"

text \<open>
  The device I/O thread's loop body: the message read from the device is posted under
  the device name \<open>'kegboard'\<close>.
\<close>

definition MainLoop_iteration ::
  "msg \<Rightarrow> 'c KegboardManagerThread \<Rightarrow> 'c KegboardManagerThread" where
  "MainLoop_iteration m s = PostDeviceMessage ''kegboard'' m s"

text \<open>
  The threads run interleaved. A schedule lists what happens in order: the I/O thread
  reads a message and posts it, the manager thread makes one pass of its loop at a given
  clock reading, or the quit flag of the manager thread is set. A pass happens only
  while the thread is in its loop.
\<close>

datatype event = DeviceRead msg | Iterate datetime | Quit

fun step :: "'c client \<Rightarrow> 'c KegboardManagerThread \<Rightarrow> event \<Rightarrow> 'c KegboardManagerThread" where
  "step cl s (DeviceRead m) = MainLoop_iteration m s"
| "step cl s (Iterate now) = (if thread s = Looping then run_iteration cl now s else s)"
| "step cl s Quit = s\<lparr>quit := True\<rparr>"

text \<open>\<open>run\<close>: the start of the loop is logged, then the schedule is followed.\<close>

definition run ::
  "'c client \<Rightarrow> event list \<Rightarrow> 'c KegboardManagerThread \<Rightarrow> 'c KegboardManagerThread" where
  "run cl evs s =
     foldl (step cl) (s\<lparr>thread := Looping, logger := logger s @ [Info ''Starting main loop.'']\<rparr>) evs"

text \<open>The messages a schedule reads from the device, as the I/O thread posts them.\<close>

fun posted :: "event list \<Rightarrow> (string \<times> msg) list" where
  "posted [] = []"
| "posted (DeviceRead m # evs) = (''kegboard'', m) # posted evs"
| "posted (_ # evs) = posted evs"

subsection \<open>Auxiliary notions\<close>

text \<open>
  Every timestamp stored in the cache is at most the clock reading of every call of a
  list of calls to come.
\<close>

definition stored_before ::
  "('k, 'v) DuplicateSuppressingCache \<Rightarrow> ('k, 'v) call list \<Rightarrow> bool" where
  "stored_before c xs =
     (\<forall>k t. last_reading_time c k = Some t \<longrightarrow> (\<forall>x \<in> set xs. t \<le> clock x))"

text \<open>A client raises nothing but \<open>ClientException\<close>.\<close>

definition client_errors_only :: "'c client \<Rightarrow> bool" where
  "client_errors_only cl =
     (\<forall>call st ex. fst (cl call st) = Some ex \<longrightarrow> (\<exists>e. ex = ClientException e))"

text \<open>
  Two clients for the examples: one whose calls all succeed, and one that counts its
  calls and raises \<open>ClientException\<close> on the first.
\<close>

definition reliable_client :: "unit client" where
  "reliable_client call st = (None, st)"

definition failing_once_client :: "nat client" where
  "failing_once_client call n =
     (if n = 0 then Some (ClientException ''connection lost'') else None, Suc n)"

section \<open>Properties\<close>

subsection \<open>The cache\<close>

text \<open>
  C1. If the value stored for a key equals the incoming value and the time elapsed since
  the stored timestamp is strictly less than the window, ShouldSuppress returns true and
  leaves the cache, hence the stored timestamp and value of the key, as it was.
\<close>

theorem ShouldSuppress_within_window:
  assumes "last_reading_value c key = Some val"
    and "last_reading_time c key = Some lt"
    and "now - lt < max_delta c"
  shows "ShouldSuppress key val now c = (True, c)"
  using assms by (simp add: ShouldSuppress_def)

theorem ShouldSuppress_within_window_witness:
  "ShouldSuppress (''meter'', ''flow0'') (100::rat) 10000000
     (store_reading (''meter'', ''flow0'') 100 0 (new_cache 60000000))
   = (True, store_reading (''meter'', ''flow0'') 100 0 (new_cache 60000000))"
  using ShouldSuppress_within_window
    [of "store_reading (''meter'', ''flow0'') 100 0 (new_cache 60000000)"
        "(''meter'', ''flow0'')" "100::rat" 0 10000000]
  by (simp add: store_reading_def new_cache_def)

text \<open>
  C7. At the boundary, when the time elapsed since the stored timestamp equals the window
  and the value is unchanged, ShouldSuppress returns false and stores the value with the
  current time: the comparison is strict.
\<close>

theorem ShouldSuppress_at_boundary:
  assumes "last_reading_value c key = Some val"
    and "last_reading_time c key = Some lt"
    and "now - lt = max_delta c"
  shows "ShouldSuppress key val now c = (False, store_reading key val now c)"
  using assms by (simp add: ShouldSuppress_def)

theorem ShouldSuppress_at_boundary_witness:
  "ShouldSuppress (''meter'', ''flow0'') (100::rat) 60000000
     (store_reading (''meter'', ''flow0'') 100 0 (new_cache 60000000))
   = (False, store_reading (''meter'', ''flow0'') 100 60000000
        (store_reading (''meter'', ''flow0'') 100 0 (new_cache 60000000)))"
  using ShouldSuppress_at_boundary
    [of "store_reading (''meter'', ''flow0'') 100 0 (new_cache 60000000)"
        "(''meter'', ''flow0'')" "100::rat" 0 60000000]
  by (simp add: store_reading_def new_cache_def)

text \<open>
  C2. For values v1 and v2 that differ, a call with v1 followed by a call with v2 for the
  same key makes the second call return false, whatever the cache was before and whatever
  the two clock readings are, and the entry of the key is then v2 with the clock reading
  of the second call.
\<close>

theorem ShouldSuppress_changed_value:
  assumes "v1 \<noteq> v2"
  shows "fst (ShouldSuppress key v2 t2 (snd (ShouldSuppress key v1 t1 c))) = False
       \<and> last_reading_value (snd (ShouldSuppress key v2 t2 (snd (ShouldSuppress key v1 t1 c)))) key
           = Some v2
       \<and> last_reading_time (snd (ShouldSuppress key v2 t2 (snd (ShouldSuppress key v1 t1 c)))) key
           = Some t2"
proof -
  let ?c1 = "snd (ShouldSuppress key v1 t1 c)"
  have v: "last_reading_value ?c1 key = Some v1"
    by (auto simp: ShouldSuppress_def store_reading_def split: option.splits)
  have "\<exists>lt. last_reading_time ?c1 key = Some lt"
    by (auto simp: ShouldSuppress_def store_reading_def split: option.splits)
  then obtain lt where t: "last_reading_time ?c1 key = Some lt" ..
  have "ShouldSuppress key v2 t2 ?c1 = (False, store_reading key v2 t2 ?c1)"
    using assms v t by (simp add: ShouldSuppress_def)
  then show ?thesis by (simp add: store_reading_def)
qed

theorem ShouldSuppress_changed_value_witness:
  "fst (ShouldSuppress (''meter'', ''flow0'') (105::rat) 1
          (snd (ShouldSuppress (''meter'', ''flow0'') 100 0 (new_cache 60000000)))) = False
   \<and> last_reading_value (snd (ShouldSuppress (''meter'', ''flow0'') (105::rat) 1
          (snd (ShouldSuppress (''meter'', ''flow0'') 100 0 (new_cache 60000000)))))
        (''meter'', ''flow0'') = Some 105
   \<and> last_reading_time (snd (ShouldSuppress (''meter'', ''flow0'') (105::rat) 1
          (snd (ShouldSuppress (''meter'', ''flow0'') 100 0 (new_cache 60000000)))))
        (''meter'', ''flow0'') = Some 1"
  using ShouldSuppress_changed_value
    [of "100::rat" 105 "(''meter'', ''flow0'')" 1 0 "new_cache 60000000"]
  by simp

subsection \<open>Sequences of calls\<close>

lemma ShouldSuppress_time_cases:
  "last_reading_time (snd (ShouldSuppress k v now c)) key = last_reading_time c key
   \<or> last_reading_time (snd (ShouldSuppress k v now c)) key = Some now"
  by (auto simp: ShouldSuppress_def store_reading_def split: option.splits)

lemma ShouldSuppress_max_delta:
  "max_delta (snd (ShouldSuppress k v now c)) = max_delta c"
  by (auto simp: ShouldSuppress_def store_reading_def split: option.splits)

lemma ShouldSuppress_calls_append:
  "ShouldSuppress_calls (xs @ ys) c =
     (fst (ShouldSuppress_calls xs c) @ fst (ShouldSuppress_calls ys (snd (ShouldSuppress_calls xs c))),
      snd (ShouldSuppress_calls ys (snd (ShouldSuppress_calls xs c))))"
  by (induction xs arbitrary: c) (simp_all add: Let_def)

lemma stored_before_step:
  assumes "sorted (map clock (x # xs))" and "stored_before c (x # xs)"
  shows "stored_before (snd (ShouldSuppress (fst x) (fst (snd x)) (clock x) c)) xs"
  unfolding stored_before_def
proof (intro allI impI ballI)
  fix k t y
  assume st: "last_reading_time (snd (ShouldSuppress (fst x) (fst (snd x)) (clock x) c)) k = Some t"
    and y: "y \<in> set xs"
  from ShouldSuppress_time_cases [of "fst x" "fst (snd x)" "clock x" c k] st
  have "last_reading_time c k = Some t \<or> t = clock x" by auto
  then show "t \<le> clock y"
  proof
    assume "last_reading_time c k = Some t"
    with assms(2) y show ?thesis by (auto simp: stored_before_def)
  next
    assume "t = clock x"
    with assms(1) y show ?thesis by auto
  qed
qed

lemma stored_before_calls:
  "sorted (map clock (xs @ ys)) \<Longrightarrow> stored_before c (xs @ ys)
     \<Longrightarrow> stored_before (snd (ShouldSuppress_calls xs c)) ys"
proof (induction xs arbitrary: c)
  case Nil
  then show ?case by simp
next
  case (Cons x xs)
  have "stored_before (snd (ShouldSuppress (fst x) (fst (snd x)) (clock x) c)) (xs @ ys)"
    using stored_before_step [of x "xs @ ys" c] Cons.prems by simp
  moreover have "sorted (map clock (xs @ ys))" using Cons.prems(1) by simp
  ultimately show ?case using Cons.IH by (simp add: Let_def)
qed

lemma ShouldSuppress_time_grows:
  assumes "last_reading_time c key = Some t"
    and "\<forall>t. last_reading_time c key = Some t \<longrightarrow> t \<le> now"
  shows "\<exists>t'. last_reading_time (snd (ShouldSuppress k v now c)) key = Some t' \<and> t \<le> t'"
  using assms ShouldSuppress_time_cases [of k v now c key] by auto

lemma ShouldSuppress_calls_time_grows:
  "sorted (map clock xs) \<Longrightarrow> stored_before c xs \<Longrightarrow> last_reading_time c key = Some t
     \<Longrightarrow> \<exists>t'. last_reading_time (snd (ShouldSuppress_calls xs c)) key = Some t' \<and> t \<le> t'"
proof (induction xs arbitrary: c t)
  case Nil
  then show ?case by simp
next
  case (Cons x xs)
  let ?c1 = "snd (ShouldSuppress (fst x) (fst (snd x)) (clock x) c)"
  have "\<forall>t. last_reading_time c key = Some t \<longrightarrow> t \<le> clock x"
    using Cons.prems(2) by (auto simp: stored_before_def)
  from ShouldSuppress_time_grows [OF Cons.prems(3) this]
  obtain t1 where t1: "last_reading_time ?c1 key = Some t1" "t \<le> t1" by blast
  have sb: "stored_before ?c1 xs" using stored_before_step [OF Cons.prems(1,2)] .
  have "sorted (map clock xs)" using Cons.prems(1) by simp
  from Cons.IH [OF this sb t1(1)] obtain t' where
    "last_reading_time (snd (ShouldSuppress_calls xs ?c1)) key = Some t'" "t1 \<le> t'" by blast
  with t1(2) show ?case by (auto simp: Let_def)
qed

lemma stored_before_new_cache: "stored_before (new_cache d) xs"
  by (simp add: stored_before_def new_cache_def)

lemma init_new_cache:
  "DuplicateSuppressingCache_init a = Inr c \<Longrightarrow> \<exists>d. c = new_cache d"
  by (auto simp: DuplicateSuppressingCache_init_def Let_def split: sum.splits)

lemma zero_window_step:
  assumes "max_delta c \<le> 0" and "\<forall>t. last_reading_time c k = Some t \<longrightarrow> t \<le> now"
  shows "fst (ShouldSuppress k v now c) = False"
  using assms by (auto simp: ShouldSuppress_def split: option.splits)

lemma zero_window_calls:
  "max_delta c \<le> 0 \<Longrightarrow> sorted (map clock xs) \<Longrightarrow> stored_before c xs
     \<Longrightarrow> fst (ShouldSuppress_calls xs c) = replicate (length xs) False"
proof (induction xs arbitrary: c)
  case Nil
  then show ?case by simp
next
  case (Cons x xs)
  let ?c1 = "snd (ShouldSuppress (fst x) (fst (snd x)) (clock x) c)"
  have "\<forall>t. last_reading_time c (fst x) = Some t \<longrightarrow> t \<le> clock x"
    using Cons.prems(3) by (auto simp: stored_before_def)
  from zero_window_step [OF Cons.prems(1) this]
  have r: "fst (ShouldSuppress (fst x) (fst (snd x)) (clock x) c) = False" .
  have "max_delta ?c1 \<le> 0" using Cons.prems(1) by (simp add: ShouldSuppress_max_delta)
  moreover have "sorted (map clock xs)" using Cons.prems(2) by simp
  moreover have "stored_before ?c1 xs" using stored_before_step [OF Cons.prems(2,3)] .
  ultimately have "fst (ShouldSuppress_calls xs ?c1) = replicate (length xs) False"
    by (rule Cons.IH)
  with r show ?case by (simp add: Let_def)
qed

text \<open>
  C8. Take a cache as the constructor gives it and a sequence of calls whose clock
  readings are non-decreasing. If a key has the timestamp t after some calls of the
  sequence, then after any further calls of the sequence it has a timestamp that is at
  least t. Moreover a call, whatever the cache and the clock, leaves the timestamp of a
  key as it was or sets it to the clock reading of the call.
\<close>

theorem timestamps_non_decreasing:
  assumes "DuplicateSuppressingCache_init a = Inr c0"
    and "sorted (map clock (xs @ ys))"
    and "last_reading_time (snd (ShouldSuppress_calls xs c0)) key = Some t"
  shows "(\<exists>t'. last_reading_time (snd (ShouldSuppress_calls (xs @ ys) c0)) key = Some t'
            \<and> t \<le> t')
       \<and> (last_reading_time (snd (ShouldSuppress k v now c)) key = last_reading_time c key
          \<or> last_reading_time (snd (ShouldSuppress k v now c)) key = Some now)"
proof
  from init_new_cache [OF assms(1)] obtain d where c0: "c0 = new_cache d" ..
  have "stored_before c0 (xs @ ys)" unfolding c0 by (rule stored_before_new_cache)
  then have sb: "stored_before (snd (ShouldSuppress_calls xs c0)) ys"
    by (rule stored_before_calls [OF assms(2)])
  have so: "sorted (map clock ys)" using assms(2) by (simp add: sorted_append)
  have eq: "snd (ShouldSuppress_calls (xs @ ys) c0)
      = snd (ShouldSuppress_calls ys (snd (ShouldSuppress_calls xs c0)))"
    by (subst ShouldSuppress_calls_append) simp
  show "\<exists>t'. last_reading_time (snd (ShouldSuppress_calls (xs @ ys) c0)) key = Some t'
            \<and> t \<le> t'"
    unfolding eq by (rule ShouldSuppress_calls_time_grows [OF so sb assms(3)])
  show "last_reading_time (snd (ShouldSuppress k v now c)) key = last_reading_time c key
          \<or> last_reading_time (snd (ShouldSuppress k v now c)) key = Some now"
    by (rule ShouldSuppress_time_cases)
qed

theorem timestamps_non_decreasing_witness:
  "(\<exists>t'. last_reading_time
          (snd (ShouldSuppress_calls
                 ([((''meter'', ''flow0''), 100::rat, 0)] @ [((''meter'', ''flow0''), 100, 65000000)])
                 (new_cache 60000000)))
          (''meter'', ''flow0'') = Some t' \<and> 0 \<le> t')
   \<and> (last_reading_time
          (snd (ShouldSuppress (''meter'', ''flow0'') (100::rat) 7 (new_cache 60000000)))
          (''meter'', ''flow0'')
        = last_reading_time (new_cache 60000000 :: (string \<times> string, rat) DuplicateSuppressingCache)
            (''meter'', ''flow0'')
      \<or> last_reading_time
          (snd (ShouldSuppress (''meter'', ''flow0'') (100::rat) 7 (new_cache 60000000)))
          (''meter'', ''flow0'') = Some 7)"
proof -
  have h1: "DuplicateSuppressingCache_init (Some 60)
      = Inr (new_cache 60000000 :: (string \<times> string, rat) DuplicateSuppressingCache)"
    by (simp add: DuplicateSuppressingCache_init_def timedelta_seconds_def)
  have h2: "sorted (map clock ([((''meter'', ''flow0''), 100::rat, 0)]
                @ [((''meter'', ''flow0''), 100, 65000000)]))"
    by (simp add: clock_def)
  have h3: "last_reading_time
      (snd (ShouldSuppress_calls [((''meter'', ''flow0''), 100::rat, 0)] (new_cache 60000000)))
      (''meter'', ''flow0'') = Some 0"
    by (simp add: ShouldSuppress_def store_reading_def new_cache_def clock_def)
  show ?thesis by (rule timestamps_non_decreasing [OF h1 h2 h3])
qed

text \<open>
  C3, as the code has it. With a window of zero seconds given to the constructor, every
  call of a sequence whose clock readings are non-decreasing returns false. When no
  window is given, the constructor takes the flag's default of 60 seconds and the cache
  suppresses.
\<close>

theorem zero_window_never_suppresses:
  assumes "sorted (map clock xs)"
  shows "DuplicateSuppressingCache_init (Some 0) = Inr (new_cache 0)
       \<and> fst (ShouldSuppress_calls xs (new_cache 0)) = replicate (length xs) False"
proof
  show "DuplicateSuppressingCache_init (Some 0) = Inr (new_cache 0)"
    by (simp add: DuplicateSuppressingCache_init_def timedelta_seconds_def)
  have "max_delta (new_cache 0 :: ('a, 'b) DuplicateSuppressingCache) \<le> 0"
    by (simp add: new_cache_def)
  then show "fst (ShouldSuppress_calls xs (new_cache 0)) = replicate (length xs) False"
    using assms stored_before_new_cache by (rule zero_window_calls)
qed

theorem zero_window_never_suppresses_witness:
  "DuplicateSuppressingCache_init (Some 0)
     = Inr (new_cache 0 :: (string \<times> string, rat) DuplicateSuppressingCache)
   \<and> fst (ShouldSuppress_calls
          [((''meter'', ''flow0''), 100::rat, 0), ((''meter'', ''flow0''), 100, 0),
           ((''meter'', ''flow0''), 100, 1000000)] (new_cache 0))
       = [False, False, False]"
proof -
  have h: "sorted (map clock [((''meter'', ''flow0''), 100::rat, 0), ((''meter'', ''flow0''), 100, 0),
           ((''meter'', ''flow0''), 100, 1000000)])"
    by (simp add: clock_def)
  from zero_window_never_suppresses [OF h] show ?thesis
    by (simp add: numeral_3_eq_3)
qed

text \<open>
  C3 as stated fails twice. A cache constructed with no window has a window of 60
  seconds, and a repeated value ten seconds later is suppressed. A cache with a window of
  zero suppresses a repeated value when the clock reading of the second call is earlier
  than the stored timestamp.
\<close>

theorem window_absent_or_clock_back_counterexample:
  "DuplicateSuppressingCache_init None
     = Inr (new_cache 60000000 :: (string \<times> string, rat) DuplicateSuppressingCache)
   \<and> fst (ShouldSuppress_calls
          [((''meter'', ''flow0''), 100::rat, 0), ((''meter'', ''flow0''), 100, 10000000)]
          (new_cache 60000000)) = [False, True]
   \<and> fst (ShouldSuppress_calls
          [((''meter'', ''flow0''), 100::rat, 5000000), ((''meter'', ''flow0''), 100, 4000000)]
          (new_cache 0)) = [False, True]"
  by (simp add: DuplicateSuppressingCache_init_def timedelta_seconds_def FLAGS_cache_seconds_def
      ShouldSuppress_def store_reading_def new_cache_def clock_def)

subsection \<open>The manager thread\<close>

lemma HandleDeviceMessage_frame:
  "message_queue (snd (HandleDeviceMessage cl d m now s)) = message_queue s"
  "quit (snd (HandleDeviceMessage cl d m now s)) = quit s"
  "thread (snd (HandleDeviceMessage cl d m now s)) = thread s"
  "logger (snd (HandleDeviceMessage cl d m now s)) = logger s"
  "handled (snd (HandleDeviceMessage cl d m now s)) = handled s"
  by (cases m; simp add: HandleDeviceMessage_def client_send_def Let_def)+

lemma HandleDeviceMessage_queue_update:
  "HandleDeviceMessage cl d m now (s\<lparr>message_queue := q, handled := h\<rparr>)
     = (fst (HandleDeviceMessage cl d m now s),
        (snd (HandleDeviceMessage cl d m now s))\<lparr>message_queue := q, handled := h\<rparr>)"
  by (cases m) (simp_all add: HandleDeviceMessage_def client_send_def Let_def)

lemma run_iteration_head:
  assumes "\<not> quit s" and "message_queue s = item # rest"
  shows "message_queue (run_iteration cl now s) = rest"
    and "handled (run_iteration cl now s) = handled s @ [item]"
    and "quit (run_iteration cl now s) = quit s"
  using assms
  by (auto simp: run_iteration_def Let_def HandleDeviceMessage_frame
      split: option.splits exn.splits)

lemma run_iteration_empty:
  "\<not> quit s \<Longrightarrow> message_queue s = [] \<Longrightarrow> run_iteration cl now s = s"
  by (simp add: run_iteration_def)

text \<open>
  C5. Handling a meter status message with name n and reading v calls SendMeterUpdate n v
  exactly when ShouldSuppress for the key ('meter', n) and the value v returns false, and
  makes no call when it returns true; handling a temperature reading message with name sn
  and reading w calls SendThermoUpdate sn w exactly when ShouldSuppress for the key
  ('thermo', sn) and the value w returns false, and makes no call otherwise. In both
  cases the cache after the handling is the cache after that call of ShouldSuppress.
\<close>

theorem HandleDeviceMessage_forwards_iff_not_suppressed:
  "sent (snd (HandleDeviceMessage cl d (MeterStatusMessage n v) now s))
     = sent s @ (if fst (ShouldSuppress (''meter'', n) (of_int v) now (cache s)) then []
                 else [SendMeterUpdate n v])
   \<and> cache (snd (HandleDeviceMessage cl d (MeterStatusMessage n v) now s))
     = snd (ShouldSuppress (''meter'', n) (of_int v) now (cache s))
   \<and> sent (snd (HandleDeviceMessage cl d (TemperatureReadingMessage sn w) now s))
     = sent s @ (if fst (ShouldSuppress (''thermo'', sn) w now (cache s)) then []
                 else [SendThermoUpdate sn w])
   \<and> cache (snd (HandleDeviceMessage cl d (TemperatureReadingMessage sn w) now s))
     = snd (ShouldSuppress (''thermo'', sn) w now (cache s))"
  by (simp add: HandleDeviceMessage_def client_send_def Let_def)

theorem HandleDeviceMessage_forwards_iff_not_suppressed_witness:
  "sent (snd (HandleDeviceMessage reliable_client ''kegboard''
            (MeterStatusMessage ''flow0'' 100) 10000000
            ((new_manager () (store_reading (''meter'', ''flow0'') 100 0 (new_cache 60000000))))))
     = []
   \<and> sent (snd (HandleDeviceMessage reliable_client ''kegboard''
            (TemperatureReadingMessage ''thermo0'' 21) 10000000
            ((new_manager () (store_reading (''meter'', ''flow0'') 100 0 (new_cache 60000000))))))
     = [SendThermoUpdate ''thermo0'' 21]"
  using HandleDeviceMessage_forwards_iff_not_suppressed
    [of reliable_client "''kegboard''" "''flow0''" 100 10000000
        "new_manager () (store_reading (''meter'', ''flow0'') 100 0 (new_cache 60000000))"
        "''thermo0''" 21]
  by (simp add: ShouldSuppress_def new_manager_def new_cache_def store_reading_def)

text \<open>
  C6. Handling a message that is neither a meter status message nor a temperature
  reading message raises nothing and leaves the whole thread object as it was: no call
  to the client, and the cache unchanged.
\<close>

theorem HandleDeviceMessage_other_ignored:
  assumes "\<forall>n v. m \<noteq> MeterStatusMessage n v"
    and "\<forall>n w. m \<noteq> TemperatureReadingMessage n w"
  shows "HandleDeviceMessage cl d m now s = (None, s)"
  using assms by (cases m) (simp_all add: HandleDeviceMessage_def)

theorem HandleDeviceMessage_other_ignored_witness:
  "HandleDeviceMessage reliable_client ''kegboard'' (OtherMessage ''HelloMessage'') 0
     (new_manager () (new_cache 60000000))
   = (None, new_manager () (new_cache 60000000))"
  using HandleDeviceMessage_other_ignored [of "OtherMessage ''HelloMessage''"]
  by simp

text \<open>
  C10. The handling of a message does not depend on the device name: with two device
  names the handling gives the same exception and the same thread object, and a pass of
  the loop that dequeues the message gives thread objects that agree on everything
  (cache, client, calls sent, log, queue, state of the thread) but the trace of the
  handled items, which records the device name.
\<close>

theorem device_name_not_used:
  assumes "\<not> quit s"
  shows "HandleDeviceMessage cl d1 m now s = HandleDeviceMessage cl d2 m now s
   \<and> (run_iteration cl now (s\<lparr>message_queue := (d1, m) # rest\<rparr>))\<lparr>handled := h\<rparr>
     = (run_iteration cl now (s\<lparr>message_queue := (d2, m) # rest\<rparr>))\<lparr>handled := h\<rparr>"
proof
  show eq: "HandleDeviceMessage cl d1 m now s = HandleDeviceMessage cl d2 m now s"
    by (simp add: HandleDeviceMessage_def)
  show "(run_iteration cl now (s\<lparr>message_queue := (d1, m) # rest\<rparr>))\<lparr>handled := h\<rparr>
     = (run_iteration cl now (s\<lparr>message_queue := (d2, m) # rest\<rparr>))\<lparr>handled := h\<rparr>"
    using assms
    by (auto simp: run_iteration_def Let_def HandleDeviceMessage_queue_update eq [symmetric]
        split: option.splits exn.splits)
qed


theorem device_name_not_used_witness:
  "HandleDeviceMessage reliable_client ''kegboard'' (MeterStatusMessage ''flow0'' 100) 0
       (new_manager () (new_cache 60000000))
     = HandleDeviceMessage reliable_client ''other'' (MeterStatusMessage ''flow0'' 100) 0
       (new_manager () (new_cache 60000000))
   \<and> (run_iteration reliable_client 0
        ((new_manager () (new_cache 60000000))
           \<lparr>message_queue := (''kegboard'', MeterStatusMessage ''flow0'' 100) # []\<rparr>))
       \<lparr>handled := []\<rparr>
     = (run_iteration reliable_client 0
        ((new_manager () (new_cache 60000000))
           \<lparr>message_queue := (''other'', MeterStatusMessage ''flow0'' 100) # []\<rparr>))
       \<lparr>handled := []\<rparr>"
proof -
  have h: "\<not> quit (new_manager () (new_cache 60000000))" by (simp add: new_manager_def)
  show ?thesis by (rule device_name_not_used [OF h])
qed

lemma step_conserves:
  "handled (step cl s ev) @ message_queue (step cl s ev)
     = handled s @ message_queue s @ posted [ev]"
proof (cases ev)
  case (DeviceRead m)
  then show ?thesis by (simp add: MainLoop_iteration_def PostDeviceMessage_def)
next
  case (Iterate now)
  show ?thesis
  proof (cases "thread s = Looping \<and> \<not> quit s")
    case True
    show ?thesis
    proof (cases "message_queue s")
      case Nil
      with True Iterate show ?thesis by (simp add: run_iteration_empty)
    next
      case (Cons item rest)
      with True Iterate show ?thesis by (simp add: run_iteration_head)
    qed
  next
    case False
    with Iterate show ?thesis by (auto simp: run_iteration_def)
  qed
next
  case Quit
  then show ?thesis by simp
qed

lemma posted_Cons: "posted (ev # evs) = posted [ev] @ posted evs"
  by (cases ev) simp_all

lemma foldl_step_conserves:
  "handled (foldl (step cl) s evs) @ message_queue (foldl (step cl) s evs)
     = handled s @ message_queue s @ posted evs"
proof (induction evs arbitrary: s)
  case Nil
  then show ?case by simp
next
  case (Cons ev evs)
  have "handled (foldl (step cl) (step cl s ev) evs) @ message_queue (foldl (step cl) (step cl s ev) evs)
      = (handled (step cl s ev) @ message_queue (step cl s ev)) @ posted evs"
    using Cons.IH [of "step cl s ev"] by simp
  also have "\<dots> = handled s @ message_queue s @ posted [ev] @ posted evs"
    by (simp add: step_conserves)
  finally show ?case by (simp add: posted_Cons [of ev evs])
qed

lemma step_handles_at_most_one:
  "length (handled (step cl s ev)) \<le> Suc (length (handled s))"
proof (cases ev)
  case (DeviceRead m)
  then show ?thesis by (simp add: MainLoop_iteration_def PostDeviceMessage_def)
next
  case (Iterate now)
  then show ?thesis
    by (cases "message_queue s")
      (auto simp: run_iteration_def Let_def HandleDeviceMessage_frame
        split: option.splits exn.splits)
next
  case Quit
  then show ?thesis by simp
qed

lemma HandleDeviceMessage_errors_only:
  assumes "client_errors_only cl" and "fst (HandleDeviceMessage cl d m now s) = Some ex"
  shows "\<exists>e. ex = ClientException e"
  using assms
  by (cases m)
    (auto simp: HandleDeviceMessage_def client_send_def client_errors_only_def Let_def
      split: if_splits)

lemma run_iteration_keeps_looping:
  assumes "client_errors_only cl" and "thread s = Looping" and "\<not> quit s"
  shows "thread (run_iteration cl now s) = Looping \<and> \<not> quit (run_iteration cl now s)"
proof (cases "message_queue s")
  case Nil
  with assms show ?thesis by (simp add: run_iteration_empty)
next
  case (Cons item rest)
  let ?r = "HandleDeviceMessage cl (fst item) (snd item) now
              (s\<lparr>message_queue := rest, handled := handled s @ [item]\<rparr>)"
  show ?thesis
  proof (cases "fst ?r")
    case None
    with assms Cons show ?thesis
      by (simp add: run_iteration_def Let_def HandleDeviceMessage_frame)
  next
    case (Some ex)
    from HandleDeviceMessage_errors_only [OF assms(1) Some]
    obtain e where "ex = ClientException e" ..
    with Some assms Cons show ?thesis
      by (simp add: run_iteration_def Let_def HandleDeviceMessage_frame)
  qed
qed

lemma step_keeps_looping:
  assumes "client_errors_only cl" and "thread s = Looping" and "\<not> quit s" and "ev \<noteq> Quit"
  shows "thread (step cl s ev) = Looping \<and> \<not> quit (step cl s ev)"
proof (cases ev)
  case (DeviceRead m)
  with assms show ?thesis by (simp add: MainLoop_iteration_def PostDeviceMessage_def)
next
  case (Iterate now)
  with assms run_iteration_keeps_looping [OF assms(1,2,3), of now] show ?thesis by simp
next
  case Quit
  with assms show ?thesis by simp
qed

lemma foldl_step_keeps_looping:
  "client_errors_only cl \<Longrightarrow> thread s = Looping \<Longrightarrow> \<not> quit s \<Longrightarrow> Quit \<notin> set evs
     \<Longrightarrow> thread (foldl (step cl) s evs) = Looping \<and> \<not> quit (foldl (step cl) s evs)"
proof (induction evs arbitrary: s)
  case Nil
  then show ?case by simp
next
  case (Cons ev evs)
  have "ev \<noteq> Quit" using Cons.prems(4) by auto
  from step_keeps_looping [OF Cons.prems(1,2,3) this]
  have "thread (step cl s ev) = Looping" "\<not> quit (step cl s ev)" by simp_all
  moreover have "Quit \<notin> set evs" using Cons.prems(4) by simp
  ultimately show ?case using Cons.IH [OF Cons.prems(1)] by simp
qed

lemma drain_queue:
  "client_errors_only cl \<Longrightarrow> thread s = Looping \<Longrightarrow> \<not> quit s
     \<Longrightarrow> length (message_queue s) \<le> length ts
     \<Longrightarrow> message_queue (foldl (step cl) s (map Iterate ts)) = []"
proof (induction ts arbitrary: s)
  case Nil
  then show ?case by simp
next
  case (Cons t ts)
  from run_iteration_keeps_looping [OF Cons.prems(1,2,3), of t]
  have lo: "thread (run_iteration cl t s) = Looping" "\<not> quit (run_iteration cl t s)"
    by simp_all
  have "length (message_queue (run_iteration cl t s)) \<le> length ts"
  proof (cases "message_queue s")
    case Nil
    with Cons.prems show ?thesis by (simp add: run_iteration_empty)
  next
    case (Cons item rest)
    with Cons.prems(3,4) show ?thesis by (simp add: run_iteration_head)
  qed
  from Cons.IH [OF Cons.prems(1) lo this] Cons.prems(2) show ?case by simp
qed


lemma posted_append: "posted (xs @ ys) = posted xs @ posted ys"
proof (induction xs)
  case Nil
  then show ?case by simp
next
  case (Cons x xs)
  then show ?case using posted_Cons [of x "xs @ ys"] posted_Cons [of x xs] by simp
qed

lemma posted_Iterate: "posted (map Iterate ts) = []"
  by (induction ts) simp_all

lemma init_new_manager:
  "KegboardManagerThread_init c0 = Inr s0 \<Longrightarrow> \<exists>c. s0 = new_manager c0 c"
  by (auto simp: KegboardManagerThread_init_def split: sum.splits)

text \<open>
  C9. Under any schedule of device reads, loop passes and quit requests, starting from a
  constructed manager, the items handled so far followed by the items still queued are
  the items posted, in the order posted; one event handles at most one item; and if the
  client raises only ClientException and quit is not requested, then after as many
  further loop passes as items posted, the items handled are exactly the items posted,
  in order.
\<close>

theorem fifo_preserved:
  assumes "KegboardManagerThread_init c0 = Inr s0"
  shows "handled (run cl evs s0) @ message_queue (run cl evs s0) = posted evs
       \<and> length (handled (step cl s ev)) \<le> Suc (length (handled s))
       \<and> (client_errors_only cl \<and> Quit \<notin> set evs \<and> length (posted evs) \<le> length ts
            \<longrightarrow> handled (run cl (evs @ map Iterate ts) s0) = posted evs)"
proof (intro conjI impI)
  from init_new_manager [OF assms] obtain c where s0: "s0 = new_manager c0 c" ..
  let ?start = "s0\<lparr>thread := Looping, logger := logger s0 @ [Info ''Starting main loop.'']\<rparr>"
  have start: "handled ?start = []" "message_queue ?start = []" "thread ?start = Looping"
    "\<not> quit ?start"
    by (simp_all add: s0 new_manager_def)
  show inv: "handled (run cl evs s0) @ message_queue (run cl evs s0) = posted evs" for evs
    using foldl_step_conserves [of cl ?start evs] start by (simp add: run_def)
  show "length (handled (step cl s ev)) \<le> Suc (length (handled s))"
    by (rule step_handles_at_most_one)
  assume a: "client_errors_only cl \<and> Quit \<notin> set evs \<and> length (posted evs) \<le> length ts"
  let ?mid = "foldl (step cl) ?start evs"
  have lo: "thread ?mid = Looping \<and> \<not> quit ?mid"
    using foldl_step_keeps_looping [of cl ?start evs] a start by simp
  have "length (handled ?mid @ message_queue ?mid) = length (posted evs)"
    using inv [of evs] by (simp only: run_def)
  then have "length (message_queue ?mid) \<le> length ts" using a by simp
  with drain_queue [of cl ?mid ts] a lo
  have "message_queue (run cl (evs @ map Iterate ts) s0) = []" by (simp add: run_def)
  with inv [of "evs @ map Iterate ts"]
  show "handled (run cl (evs @ map Iterate ts) s0) = posted evs"
    by (simp add: posted_append posted_Iterate)
qed

lemma init_unit:
  "KegboardManagerThread_init c0 = Inr (new_manager c0 (new_cache 60000000))"
  by (simp add: KegboardManagerThread_init_def DuplicateSuppressingCache_init_def
      timedelta_seconds_def FLAGS_cache_seconds_def)

theorem fifo_preserved_witness:
  "handled (run reliable_client
      ([DeviceRead (MeterStatusMessage ''flow0'' 100), Iterate 0,
        DeviceRead (TemperatureReadingMessage ''thermo0'' 21)] @ map Iterate [1, 2])
      (new_manager () (new_cache 60000000)))
   = [(''kegboard'', MeterStatusMessage ''flow0'' 100),
      (''kegboard'', TemperatureReadingMessage ''thermo0'' 21)]"
proof -
  have h: "client_errors_only reliable_client
      \<and> Quit \<notin> set [DeviceRead (MeterStatusMessage ''flow0'' 100), Iterate 0,
                       DeviceRead (TemperatureReadingMessage ''thermo0'' 21)]
      \<and> length (posted [DeviceRead (MeterStatusMessage ''flow0'' 100), Iterate 0,
                       DeviceRead (TemperatureReadingMessage ''thermo0'' 21)])
          \<le> length [1, 2 :: int]"
    by (simp add: client_errors_only_def reliable_client_def)
  from fifo_preserved [OF init_unit, where cl = reliable_client
      and evs = "[DeviceRead (MeterStatusMessage ''flow0'' 100), Iterate 0,
        DeviceRead (TemperatureReadingMessage ''thermo0'' 21)]" and ts = "[1, 2]"] h
  show ?thesis by simp
qed

text \<open>
  C4. If the handling of the item at the head of the queue raises ClientException, the
  pass of the loop ends with the thread still in its loop and a warning with the
  exception's text logged, and the item is off the queue; the next pass of the loop
  dequeues the next item and handles it: the calls sent and the cache after that pass are
  those of handling the next item.
\<close>

theorem send_failure_isolated:
  assumes "thread s = Looping" and "\<not> quit s"
    and "message_queue s = item # next # rest"
    and "fst (HandleDeviceMessage cl (fst item) (snd item) now
               (s\<lparr>message_queue := next # rest, handled := handled s @ [item]\<rparr>))
         = Some (ClientException e)"
  shows "thread (step cl s (Iterate now)) = Looping
       \<and> logger (step cl s (Iterate now))
           = logger s @ [Warning (''Got error during send: '' @ e)]
       \<and> message_queue (step cl s (Iterate now)) = next # rest
       \<and> handled (step cl (step cl s (Iterate now)) (Iterate now')) = handled s @ [item, next]
       \<and> message_queue (step cl (step cl s (Iterate now)) (Iterate now')) = rest
       \<and> sent (step cl (step cl s (Iterate now)) (Iterate now'))
           = sent (snd (HandleDeviceMessage cl (fst next) (snd next) now'
                          (step cl s (Iterate now))))
       \<and> cache (step cl (step cl s (Iterate now)) (Iterate now'))
           = cache (snd (HandleDeviceMessage cl (fst next) (snd next) now'
                          (step cl s (Iterate now))))"
proof -
  define s1 where "s1 = step cl s (Iterate now)"
  let ?r = "HandleDeviceMessage cl (fst item) (snd item) now
              (s\<lparr>message_queue := next # rest, handled := handled s @ [item]\<rparr>)"
  have s1: "s1 = (snd ?r)\<lparr>logger := logger (snd ?r) @ [Warning (''Got error during send: '' @ e)]\<rparr>"
    unfolding s1_def using assms by (simp add: run_iteration_def Let_def)
  have f1: "thread s1 = Looping" "\<not> quit s1" "message_queue s1 = next # rest"
    "handled s1 = handled s @ [item]"
    "logger s1 = logger s @ [Warning (''Got error during send: '' @ e)]"
    unfolding s1 using assms(1,2) by (simp_all add: HandleDeviceMessage_frame)
  let ?r2 = "HandleDeviceMessage cl (fst next) (snd next) now' s1"
  have s2: "step cl s1 (Iterate now')
      = (case fst ?r2 of
           None \<Rightarrow> (snd ?r2)\<lparr>message_queue := rest, handled := handled s1 @ [next]\<rparr>
         | Some (ClientException e') \<Rightarrow>
             (snd ?r2)\<lparr>message_queue := rest, handled := handled s1 @ [next],
               logger := logger (snd ?r2) @ [Warning (''Got error during send: '' @ e')]\<rparr>
         | Some ex \<Rightarrow>
             (snd ?r2)\<lparr>message_queue := rest, handled := handled s1 @ [next],
               thread := Died ex\<rparr>)"
    using f1(1,2,3)
    by (simp add: run_iteration_def Let_def HandleDeviceMessage_queue_update
        split: option.splits exn.splits)
  have f2: "handled (step cl s1 (Iterate now')) = handled s @ [item, next]"
    "message_queue (step cl s1 (Iterate now')) = rest"
    "sent (step cl s1 (Iterate now')) = sent (snd ?r2)"
    "cache (step cl s1 (Iterate now')) = cache (snd ?r2)"
    unfolding s2 using f1(4) by (simp_all split: option.splits exn.splits)
  from f1 f2 show ?thesis unfolding s1_def by blast
qed


theorem send_failure_isolated_witness:
  "thread (step failing_once_client
      ((new_manager 0 (new_cache 60000000))
         \<lparr>thread := Looping,
          message_queue := [(''kegboard'', MeterStatusMessage ''flow0'' 100),
                            (''kegboard'', MeterStatusMessage ''flow1'' 7)]\<rparr>)
      (Iterate 0)) = Looping
   \<and> logger (step failing_once_client
      ((new_manager 0 (new_cache 60000000))
         \<lparr>thread := Looping,
          message_queue := [(''kegboard'', MeterStatusMessage ''flow0'' 100),
                            (''kegboard'', MeterStatusMessage ''flow1'' 7)]\<rparr>)
      (Iterate 0)) = [Warning ''Got error during send: connection lost'']
   \<and> handled (step failing_once_client (step failing_once_client
      ((new_manager 0 (new_cache 60000000))
         \<lparr>thread := Looping,
          message_queue := [(''kegboard'', MeterStatusMessage ''flow0'' 100),
                            (''kegboard'', MeterStatusMessage ''flow1'' 7)]\<rparr>)
      (Iterate 0)) (Iterate 1))
     = [(''kegboard'', MeterStatusMessage ''flow0'' 100),
        (''kegboard'', MeterStatusMessage ''flow1'' 7)]
   \<and> message_queue (step failing_once_client (step failing_once_client
      ((new_manager 0 (new_cache 60000000))
         \<lparr>thread := Looping,
          message_queue := [(''kegboard'', MeterStatusMessage ''flow0'' 100),
                            (''kegboard'', MeterStatusMessage ''flow1'' 7)]\<rparr>)
      (Iterate 0)) (Iterate 1)) = []"
proof -
  let ?s = "(new_manager (0::nat) (new_cache 60000000))
         \<lparr>thread := Looping,
          message_queue := [(''kegboard'', MeterStatusMessage ''flow0'' 100),
                            (''kegboard'', MeterStatusMessage ''flow1'' 7)]\<rparr>"
  have h1: "thread ?s = Looping" by simp
  have h2: "\<not> quit ?s" by (simp add: new_manager_def)
  have h3: "message_queue ?s = (''kegboard'', MeterStatusMessage ''flow0'' 100)
      # (''kegboard'', MeterStatusMessage ''flow1'' 7) # []" by simp
  have h4: "fst (HandleDeviceMessage failing_once_client
        (fst (''kegboard'', MeterStatusMessage ''flow0'' 100))
        (snd (''kegboard'', MeterStatusMessage ''flow0'' 100)) 0
        (?s\<lparr>message_queue := [(''kegboard'', MeterStatusMessage ''flow1'' 7)],
             handled := handled ?s @ [(''kegboard'', MeterStatusMessage ''flow0'' 100)]\<rparr>))
      = Some (ClientException ''connection lost'')"
    by (simp add: HandleDeviceMessage_def ShouldSuppress_def client_send_def
        failing_once_client_def new_manager_def new_cache_def Let_def)
  note t = send_failure_isolated [OF h1 h2 h3 h4, of 1]
  from t have c1: "thread (step failing_once_client ?s (Iterate 0)) = Looping" by blast
  from t have "logger (step failing_once_client ?s (Iterate 0))
      = logger ?s @ [Warning (''Got error during send: '' @ ''connection lost'')]" by blast
  also have "\<dots> = [Warning ''Got error during send: connection lost'']"
    by (simp add: new_manager_def)
  finally have c2: "logger (step failing_once_client ?s (Iterate 0))
      = [Warning ''Got error during send: connection lost'']" .
  from t have "handled (step failing_once_client (step failing_once_client ?s (Iterate 0)) (Iterate 1))
      = handled ?s @ [(''kegboard'', MeterStatusMessage ''flow0'' 100),
                      (''kegboard'', MeterStatusMessage ''flow1'' 7)]" by blast
  also have "\<dots> = [(''kegboard'', MeterStatusMessage ''flow0'' 100),
                      (''kegboard'', MeterStatusMessage ''flow1'' 7)]"
    by (simp add: new_manager_def)
  finally have c3: "handled (step failing_once_client (step failing_once_client ?s (Iterate 0)) (Iterate 1))
      = [(''kegboard'', MeterStatusMessage ''flow0'' 100),
         (''kegboard'', MeterStatusMessage ''flow1'' 7)]" .
  from t have c4: "message_queue (step failing_once_client
      (step failing_once_client ?s (Iterate 0)) (Iterate 1)) = []" by blast
  from c1 c2 c3 c4 show ?thesis by blast
qed

end
